theory Spec2Isabelle
  imports Main "HOL-Library.Log_Nat" "HOL-Library.AList"
begin

section \<open>Errors\<close>

text \<open>
  Every exception the service layer can raise is a constructor. \<open>NotFound\<close> is what
  \<^verbatim>\<open>abort(404)\<close> raises; \<open>NoResultFound\<close> is the object mapper's failed lookup.
\<close>

datatype error =
    NotFound
  | NotImplementedError
  | ValueError
  | NoResultFound
  | ZeroDivisionError
  | OverflowError

section \<open>Double-precision arithmetic used by \<open>Pagination.pages\<close>\<close>

text \<open>
  \<^verbatim>\<open>int(ceil(self.total / float(self.per_page)))\<close> works on IEEE binary64 values.
  A finite double is a rational number, so the values are modelled as \<open>rat\<close> and each
  operation rounds its exact result to the nearest representable one, ties to even:
  53 significant bits, least exponent \<open>-1022\<close> (below it the spacing stays at
  \<open>2 ^ -1074\<close>), and a magnitude of \<open>2 ^ 1024\<close> or more is an overflow.
\<close>

definition pow2 :: "int \<Rightarrow> rat" where
  "pow2 e = (if 0 \<le> e then 2 ^ nat e else 1 / 2 ^ nat (- e))"

text \<open>The exponent \<open>e\<close> with \<open>2 ^ e \<le> q < 2 ^ (e + 1)\<close>, for \<open>q > 0\<close>.\<close>

definition binade :: "rat \<Rightarrow> int" where
  "binade q =
     (let (a, b) = quotient_of q;
          d = int (floorlog 2 (nat a)) - int (floorlog 2 (nat b))
      in if pow2 d \<le> q then d else d - 1)"

definition round_half_even :: "rat \<Rightarrow> int" where
  "round_half_even x =
     (let f = \<lfloor>x\<rfloor>; d = x - of_int f
      in if d < 1 / 2 then f
         else if 1 / 2 < d then f + 1
         else if even f then f else f + 1)"

definition round_double :: "rat \<Rightarrow> rat" where
  "round_double q =
     (if q = 0 then 0
      else let ulp = pow2 (max (binade \<bar>q\<bar>) (- 1022) - 52)
           in sgn q * of_int (round_half_even (\<bar>q\<bar> / ulp)) * ulp)"

text \<open>\<^verbatim>\<open>float(n)\<close> for a Python int, also the conversion of the left operand of \<^verbatim>\<open>/\<close>.\<close>

definition py_float :: "int \<Rightarrow> error + rat" where
  "py_float n =
     (let r = round_double (of_int n)
      in if 2 ^ 1024 \<le> \<bar>r\<bar> then Inl OverflowError else Inr r)"

text \<open>
  Division of two doubles. A quotient beyond the largest double would be the infinity;
  the divisor in \<open>pages\<close> is a converted integer, of magnitude at least 1 unless it is
  zero, so the quotient there never exceeds the dividend.
\<close>

definition float_div :: "rat \<Rightarrow> rat \<Rightarrow> error + rat" where
  "float_div a b =
     (if b = 0 then Inl ZeroDivisionError else Inr (round_double (a / b)))"

section \<open>The \<open>Pagination\<close> value object\<close>

record 'a pagination =
  page :: int
  per_page :: int
  total :: int
  items :: "'a list"

text \<open>
  \<^verbatim>\<open>float(self.per_page)\<close> is evaluated first, then the division converts
  \<^verbatim>\<open>self.total\<close>, then divides.
\<close>

definition pages :: "'a pagination \<Rightarrow> error + int" where
  "pages p =
     (case py_float (per_page p) of
        Inl e \<Rightarrow> Inl e
      | Inr d \<Rightarrow>
          (case py_float (total p) of
             Inl e \<Rightarrow> Inl e
           | Inr t \<Rightarrow>
               (case float_div t d of
                  Inl e \<Rightarrow> Inl e
                | Inr q \<Rightarrow> Inr \<lceil>q\<rceil>)))"

definition has_prev :: "'a pagination \<Rightarrow> bool" where
  "has_prev p = (1 < page p)"

definition has_next :: "'a pagination \<Rightarrow> error + bool" where
  "has_next p = (case pages p of Inl e \<Rightarrow> Inl e | Inr n \<Rightarrow> Inr (page p < n))"

text \<open>The test of the loop body of \<open>iter_pages\<close>, on the page count \<open>pgs\<close>.\<close>

definition shown :: "int \<Rightarrow> int \<Rightarrow> int \<Rightarrow> int \<Rightarrow> int \<Rightarrow> int \<Rightarrow> int \<Rightarrow> bool" where
  "shown pg pgs left_edge left_current right_current right_edge num =
     (num \<le> left_edge \<or>
      (pg - left_current - 1 < num \<and> num < pg + right_current) \<or>
      pgs - right_edge < num)"

text \<open>
  The \<^verbatim>\<open>for\<close> loop of \<open>iter_pages\<close> over the remaining numbers, with the local
  \<open>last\<close>; \<open>None\<close> is the yielded \<^verbatim>\<open>None\<close>, \<open>Some num\<close> a yielded number.
\<close>

fun iter_pages_loop :: "(int \<Rightarrow> bool) \<Rightarrow> int \<Rightarrow> int list \<Rightarrow> int option list" where
  "iter_pages_loop keep last_num [] = []"
| "iter_pages_loop keep last_num (num # nums) =
     (if keep num
      then (if last_num + 1 \<noteq> num then [None] else []) @ Some num # iter_pages_loop keep num nums
      else iter_pages_loop keep last_num nums)"

definition iter_pages ::
  "'a pagination \<Rightarrow> int \<Rightarrow> int \<Rightarrow> int \<Rightarrow> int \<Rightarrow> error + int option list" where
  "iter_pages p left_edge left_current right_current right_edge =
     (case pages p of
        Inl e \<Rightarrow> Inl e
      | Inr pgs \<Rightarrow>
          Inr (iter_pages_loop
                 (shown (page p) pgs left_edge left_current right_current right_edge)
                 0 [1..pgs]))"


section \<open>Objects, keyword arguments and the directory\<close>

text \<open>
  Attribute values and keyword-argument values. \<open>v == ''\<close> holds for \<open>PStr []\<close> only.
\<close>

datatype pyval = PStr string | PInt int | PNone

text \<open>
  A \<^verbatim>\<open>**kwargs\<close> dictionary, in iteration order (from Python 3.7 on, the order the
  arguments were written in the call); its keys are distinct.
\<close>

type_synonym kwargs = "(string \<times> pyval) list"

text \<open>
  A model instance: its class (what \<^verbatim>\<open>isinstance\<close> looks at), its identifier and its
  attributes. The instances are entries of the object mapper: \<^verbatim>\<open>setattr\<close> stores an
  attribute, \<^verbatim>\<open>delattr\<close> removes one, and the removal of an attribute the entry does
  not have is ignored.
\<close>

record obj =
  cls :: string
  obj_id :: string
  attrs :: "(string \<times> pyval) list"

definition setattr :: "obj \<Rightarrow> string \<Rightarrow> pyval \<Rightarrow> obj" where
  "setattr x k v = x\<lparr>attrs := AList.update k v (attrs x)\<rparr>"

definition delattr :: "obj \<Rightarrow> string \<Rightarrow> obj" where
  "delattr x k = x\<lparr>attrs := AList.delete k (attrs x)\<rparr>"

text \<open>
  The object mapper and the directory server behind \<^verbatim>\<open>__ldap__\<close> are libraries outside
  the repository. The directory is the list of its entries in enumeration order; every
  call that reaches it is recorded in \<open>calls\<close>, so that a theorem can say that an
  operation did or did not go to the backend.
\<close>

datatype backend_call =
    Search kwargs
  | Retrieve string
  | Save obj
  | Delete obj

record directory =
  entries :: "obj list"
  calls :: "backend_call list"

definition matches :: "kwargs \<Rightarrow> obj \<Rightarrow> bool" where
  "matches kw x = list_all (\<lambda>(k, v). map_of (attrs x) k = Some v) kw"

text \<open>\<^verbatim>\<open>Model.search(ldap, **kwargs)\<close>: the entries of the class that match every pair.\<close>

definition search :: "string \<Rightarrow> kwargs \<Rightarrow> directory \<Rightarrow> obj list \<times> directory" where
  "search m kw d =
     (filter (\<lambda>x. cls x = m \<and> matches kw x) (entries d),
      d\<lparr>calls := calls d @ [Search kw]\<rparr>)"

text \<open>\<^verbatim>\<open>Model.retrieve(ldap, id)\<close>: the entry of the class with this id, or \<open>NoResultFound\<close>.\<close>

definition retrieve :: "string \<Rightarrow> string \<Rightarrow> directory \<Rightarrow> (error + obj) \<times> directory" where
  "retrieve m i d =
     (case find (\<lambda>x. cls x = m \<and> obj_id x = i) (entries d) of
        None \<Rightarrow> Inl NoResultFound
      | Some x \<Rightarrow> Inr x,
      d\<lparr>calls := calls d @ [Retrieve i]\<rparr>)"

fun store_entry :: "obj \<Rightarrow> obj list \<Rightarrow> obj list" where
  "store_entry x [] = [x]"
| "store_entry x (e # es) = (if obj_id e = obj_id x then x # es else e # store_entry x es)"

text \<open>\<^verbatim>\<open>obj.save()\<close>: the entry with the object's id is replaced, or the object is added.\<close>

definition obj_save :: "obj \<Rightarrow> directory \<Rightarrow> directory" where
  "obj_save x d = d\<lparr>entries := store_entry x (entries d), calls := calls d @ [Save x]\<rparr>"

text \<open>\<^verbatim>\<open>obj.delete()\<close>: the entry with the object's id is removed.\<close>

definition obj_delete :: "obj \<Rightarrow> directory \<Rightarrow> directory" where
  "obj_delete x d =
     d\<lparr>entries := filter (\<lambda>e. obj_id e \<noteq> obj_id x) (entries d), calls := calls d @ [Delete x]\<rparr>"

section \<open>\<open>BaseService\<close>\<close>

text \<open>
  \<open>_isinstance\<close>: \<open>m\<close> is the service's \<^verbatim>\<open>__model__\<close>; an object is an instance of
  the model when it is of that class (subclasses are not modelled). The mismatch is a
  \<open>ValueError\<close> unless \<open>raise_error\<close> is off.
\<close>

definition base_isinstance :: "string \<Rightarrow> obj \<Rightarrow> bool \<Rightarrow> error + bool" where
  "base_isinstance m x raise_error =
     (let rv = (cls x = m)
      in if \<not> rv \<and> raise_error then Inl ValueError else Inr rv)"

text \<open>\<open>_preprocess_params\<close>: the two \<^verbatim>\<open>pop\<close> calls.\<close>

definition base_preprocess_params :: "kwargs \<Rightarrow> kwargs" where
  "base_preprocess_params kw = AList.delete ''submit'' (AList.delete ''csrf_token'' kw)"

section \<open>\<open>SQLAlchemyService\<close>: \<open>save\<close> and \<open>delete\<close>\<close>

text \<open>
  The session is the table of committed rows; \<^verbatim>\<open>add\<close> and \<^verbatim>\<open>commit\<close> store the row,
  \<^verbatim>\<open>delete\<close> and \<^verbatim>\<open>commit\<close> remove it.
\<close>

record sql_service =
  sql_model :: string
  rows :: "obj list"

definition sqlalchemy_save :: "obj \<Rightarrow> sql_service \<Rightarrow> (error + obj) \<times> sql_service" where
  "sqlalchemy_save x s =
     (case base_isinstance (sql_model s) x True of
        Inl e \<Rightarrow> (Inl e, s)
      | Inr _ \<Rightarrow> (Inr x, s\<lparr>rows := store_entry x (rows s)\<rparr>))"

definition sqlalchemy_delete :: "obj \<Rightarrow> sql_service \<Rightarrow> (error + unit) \<times> sql_service" where
  "sqlalchemy_delete x s =
     (case base_isinstance (sql_model s) x True of
        Inl e \<Rightarrow> (Inl e, s)
      | Inr _ \<Rightarrow> (Inr (), s\<lparr>rows := filter (\<lambda>e. obj_id e \<noteq> obj_id x) (rows s)\<rparr>))"

section \<open>\<open>LDAPOMService\<close>\<close>

text \<open>
  A service instance: \<^verbatim>\<open>__model__\<close> and \<^verbatim>\<open>__ldap__\<close>. Every method takes the
  instance and returns its result with the instance afterwards; a raised exception is
  \<open>Inl\<close>. The methods are written on the record scheme, so that they are inherited by
  the cached service below.
\<close>

record service =
  model :: string
  ldap :: directory

definition ldapom_save :: "obj \<Rightarrow> 'a service_scheme \<Rightarrow> (error + obj) \<times> 'a service_scheme" where
  "ldapom_save x s = (Inr x, s\<lparr>ldap := obj_save x (ldap s)\<rparr>)"

definition ldapom_all :: "'a service_scheme \<Rightarrow> obj list \<times> 'a service_scheme" where
  "ldapom_all s = (let (xs, d) = search (model s) [] (ldap s) in (xs, s\<lparr>ldap := d\<rparr>))"

definition ldapom_get :: "string \<Rightarrow> 'a service_scheme \<Rightarrow> (error + obj) \<times> 'a service_scheme" where
  "ldapom_get i s = (let (r, d) = retrieve (model s) i (ldap s) in (r, s\<lparr>ldap := d\<rparr>))"

text \<open>\<open>get_all\<close>: the list comprehension calls \<open>get\<close> id by id and stops at the first raise.\<close>

fun ldapom_get_all ::
  "string list \<Rightarrow> 'a service_scheme \<Rightarrow> (error + obj list) \<times> 'a service_scheme" where
  "ldapom_get_all [] s = (Inr [], s)"
| "ldapom_get_all (i # ids) s =
     (case ldapom_get i s of
        (Inl e, s') \<Rightarrow> (Inl e, s')
      | (Inr x, s') \<Rightarrow>
          (case ldapom_get_all ids s' of
             (Inl e, s'') \<Rightarrow> (Inl e, s'')
           | (Inr xs, s'') \<Rightarrow> (Inr (x # xs), s'')))"

definition ldapom_find :: "kwargs \<Rightarrow> 'a service_scheme \<Rightarrow> obj list \<times> 'a service_scheme" where
  "ldapom_find kw s = (let (xs, d) = search (model s) kw (ldap s) in (xs, s\<lparr>ldap := d\<rparr>))"

definition ldapom_preprocess_params :: "kwargs \<Rightarrow> kwargs" where
  "ldapom_preprocess_params kw =
     filter (\<lambda>(k, v). v \<noteq> PStr []) (base_preprocess_params kw)"

text \<open>The first loop of \<open>update\<close>: \<^verbatim>\<open>delattr\<close> for every pair whose value is \<^verbatim>\<open>''\<close>.\<close>

fun delete_empty :: "kwargs \<Rightarrow> obj \<Rightarrow> obj" where
  "delete_empty [] x = x"
| "delete_empty ((k, v) # kw) x =
     (if v = PStr [] then delete_empty kw (delattr x k) else delete_empty kw x)"

text \<open>The second loop of \<open>update\<close>: \<^verbatim>\<open>setattr\<close> for every preprocessed pair.\<close>

fun assign_all :: "kwargs \<Rightarrow> obj \<Rightarrow> obj" where
  "assign_all [] x = x"
| "assign_all ((k, v) # kw) x = assign_all kw (setattr x k v)"

definition ldapom_update ::
  "obj \<Rightarrow> kwargs \<Rightarrow> 'a service_scheme \<Rightarrow> (error + obj) \<times> 'a service_scheme" where
  "ldapom_update x kw s =
     (case base_isinstance (model s) x True of
        Inl e \<Rightarrow> (Inl e, s)
      | Inr _ \<Rightarrow>
          ldapom_save (assign_all (ldapom_preprocess_params kw) (delete_empty kw x)) s)"

definition ldapom_delete :: "obj \<Rightarrow> 'a service_scheme \<Rightarrow> (error + unit) \<times> 'a service_scheme" where
  "ldapom_delete x s = (Inr (), s\<lparr>ldap := obj_delete x (ldap s)\<rparr>)"

text \<open>
  A Python slice \<^verbatim>\<open>xs[lo:hi]\<close>: an index below zero counts from the end, and both
  ends are clipped to the list.
\<close>

definition slice_index :: "int \<Rightarrow> nat \<Rightarrow> nat" where
  "slice_index i n = (if i < 0 then nat (max (i + int n) 0) else min (nat i) n)"

definition py_slice :: "int \<Rightarrow> int \<Rightarrow> 'a list \<Rightarrow> 'a list" where
  "py_slice lo hi xs =
     (let n = length xs; l = slice_index lo n; h = slice_index hi n
      in take (h - l) (drop l xs))"

text \<open>
  \<open>paginate\<close>. \<open>order_by\<close> and \<open>desc\<close> are accepted and not used. The test before
  \<^verbatim>\<open>abort(404)\<close> is the source's: \<^verbatim>\<open>error_out and (page-1)*per_page < total\<close>.
\<close>

definition ldapom_paginate ::
  "int \<Rightarrow> int \<Rightarrow> string option \<Rightarrow> bool \<Rightarrow> kwargs \<Rightarrow> bool \<Rightarrow> 'a service_scheme
   \<Rightarrow> (error + obj pagination) \<times> 'a service_scheme" where
  "ldapom_paginate pg per order_by desc filter_by error_out s =
     (if filter_by \<noteq> [] then (Inl NotImplementedError, s)
      else
        let (objects, s') = ldapom_all s;
            tot = int (length objects)
        in if error_out \<and> (pg - 1) * per < tot then (Inl NotFound, s')
           else (Inr \<lparr>page = pg, per_page = per, total = tot,
                      items = py_slice ((pg - 1) * per) (pg * per) objects\<rparr>, s'))"

section \<open>\<open>LDAPOMCachedService\<close>\<close>

text \<open>
  The three caches of \<^verbatim>\<open>__init__\<close>; a dictionary is a map. \<open>all_cache = None\<close> is
  \<^verbatim>\<open>self._all_cache is None\<close>.
\<close>

record cached_service = service +
  all_cache :: "obj list option"
  get_cache :: "string \<rightharpoonup> obj"
  find_cache :: "int \<rightharpoonup> obj list"

definition cached_init :: "string \<Rightarrow> directory \<Rightarrow> cached_service" where
  "cached_init m d =
     \<lparr>model = m, ldap = d, all_cache = None, get_cache = Map.empty, find_cache = Map.empty\<rparr>"

text \<open>The loop \<^verbatim>\<open>for e in self._all_cache: self._get_cache[e.id] = e\<close>.\<close>

fun remember_all :: "obj list \<Rightarrow> (string \<rightharpoonup> obj) \<Rightarrow> (string \<rightharpoonup> obj)" where
  "remember_all [] c = c"
| "remember_all (e # es) c = remember_all es (c(obj_id e \<mapsto> e))"

definition cached_all :: "cached_service \<Rightarrow> obj list \<times> cached_service" where
  "cached_all s =
     (let (xs, s1) =
            (case all_cache s of
               None \<Rightarrow> (let (ys, s') = ldapom_all s in (ys, s'\<lparr>all_cache := Some ys\<rparr>))
             | Some ys \<Rightarrow> (ys, s))
      in (xs, s1\<lparr>get_cache := remember_all xs (get_cache s1)\<rparr>))"

definition cached_get :: "string \<Rightarrow> cached_service \<Rightarrow> (error + obj) \<times> cached_service" where
  "cached_get i s =
     (case get_cache s i of
        Some x \<Rightarrow> (Inr x, s)
      | None \<Rightarrow>
          (case ldapom_get i s of
             (Inl e, s') \<Rightarrow> (Inl e, s')
           | (Inr x, s') \<Rightarrow> (Inr x, s'\<lparr>get_cache := (get_cache s')(i \<mapsto> x)\<rparr>)))"

text \<open>
  \<open>find\<close>: the key is \<^verbatim>\<open>hash(tuple([i for i in kwargs.items()]))\<close>, the built-in hash
  of the pairs in iteration order. The built-in hash is a parameter, \<open>py_hash\<close>.
\<close>

definition cached_find ::
  "(kwargs \<Rightarrow> int) \<Rightarrow> kwargs \<Rightarrow> cached_service \<Rightarrow> obj list \<times> cached_service" where
  "cached_find py_hash kw s =
     (let h = py_hash kw
      in case find_cache s h of
           Some xs \<Rightarrow> (xs, s)
         | None \<Rightarrow>
             (let (xs, s') = ldapom_find kw s
              in (xs, s'\<lparr>find_cache := (find_cache s')(h \<mapsto> xs)\<rparr>)))"

text \<open>\<open>n\<close> calls of \<open>all()\<close> in a row, with the result of each.\<close>

fun all_times :: "nat \<Rightarrow> cached_service \<Rightarrow> obj list list \<times> cached_service" where
  "all_times 0 s = ([], s)"
| "all_times (Suc n) s =
     (let (xs, s') = cached_all s; (rs, s'') = all_times n s' in (xs # rs, s''))"

text \<open>How many times the full listing was fetched from the directory.\<close>

definition fetch_all_count :: "'a service_scheme \<Rightarrow> nat" where
  "fetch_all_count s = length (filter (\<lambda>c. c = Search []) (calls (ldap s)))"

text \<open>Two instances of one model on directories with the same entries.\<close>

definition same_directory :: "'a service_scheme \<Rightarrow> 'a service_scheme \<Rightarrow> bool" where
  "same_directory s s' \<longleftrightarrow> model s' = model s \<and> entries (ldap s') = entries (ldap s)"

section \<open>Fixtures\<close>

text \<open>
  The built-in \<^verbatim>\<open>hash\<close> belongs to the interpreter and differs from one process to the
  next. \<open>seq_hash\<close> is one hash of a tuple of pairs that depends on their order, as
  the built-in hash of a tuple does; it is the \<open>py_hash\<close> of the concrete runs below.
\<close>

definition seq_hash :: "kwargs \<Rightarrow> int" where
  "seq_hash kw =
     foldl (\<lambda>h (k, v). 31 * h + int (sum_list (map of_char k))
                          + (case v of PStr s \<Rightarrow> int (sum_list (map of_char s)) | PInt n \<Rightarrow> n | PNone \<Rightarrow> 0))
       7 kw"

text \<open>A directory of \<open>n\<close> persons and the service on it.\<close>

definition person :: "nat \<Rightarrow> obj" where
  "person n = \<lparr>cls = ''person'', obj_id = replicate (Suc n) CHR ''p'', attrs = []\<rparr>"

definition people :: "nat \<Rightarrow> service" where
  "people n = \<lparr>model = ''person'', ldap = \<lparr>entries = map person [0..<n], calls = []\<rparr>\<rparr>"

section \<open>The gap rule of \<open>iter_pages\<close>, as specified\<close>

text \<open>
  The gap rule in the words of the specification: out of the qualifying numbers in
  order, a number that is not the last yielded one plus one is preceded by a gap marker.
\<close>

fun with_gaps :: "int \<Rightarrow> int list \<Rightarrow> int option list" where
  "with_gaps last_num [] = []"
| "with_gaps last_num (n # ns) =
     (if n = last_num + 1 then [Some n] else [None, Some n]) @ with_gaps n ns"

section \<open>Rounding to double precision\<close>

lemma pow2_powi: "pow2 e = 2 powi e"
  by (simp add: pow2_def power_int_def field_simps)

lemma pow2_pos: "0 < pow2 e"
  by (simp add: pow2_powi)

lemma pow2_add: "pow2 (a + b) = pow2 a * pow2 b"
  by (simp add: pow2_powi power_int_add)

lemma pow2_nat: "pow2 (int n) = 2 ^ n"
  by (simp add: pow2_def)

lemma pow2_strict_mono: "a < b \<Longrightarrow> pow2 a < pow2 b"
  by (simp add: pow2_powi power_int_strict_increasing)

lemma pow2_less_iff: "pow2 a < pow2 b \<longleftrightarrow> a < b"
  using pow2_strict_mono [of a b] pow2_strict_mono [of b a]
  by (cases a b rule: linorder_cases) auto

lemma pow2_le_iff: "pow2 a \<le> pow2 b \<longleftrightarrow> a \<le> b"
  using pow2_less_iff [of b a] by (simp add: not_less [symmetric])

lemma binade_bounds:
  assumes "0 < q"
  shows "pow2 (binade q) \<le> q \<and> q < pow2 (binade q + 1)"
proof -
  obtain a b where ab: "quotient_of q = (a, b)" by (cases "quotient_of q")
  have b: "0 < b" using ab quotient_of_denom_pos by blast
  have q: "q = of_int a / of_int b" using ab quotient_of_div by blast
  have a: "0 < a" using assms b q by (simp add: zero_less_divide_iff)
  define la where "la = floorlog 2 (nat a)"
  define lb where "lb = floorlog 2 (nat b)"
  define d where "d = int la - int lb"
  have la0: "0 < la" using a by (simp add: la_def floorlog_def)
  have lb0: "0 < lb" using b by (simp add: lb_def floorlog_def)
  have "2 ^ (la - 1) \<le> nat a" "nat a < 2 ^ la"
    using floorlog_bounds [of "nat a" 2] a by (simp_all add: la_def)
  then have "int (2 ^ (la - 1)) \<le> a" "a < int (2 ^ la)"
    using a by linarith+
  then have "rat_of_int (int (2 ^ (la - 1))) \<le> of_int a" "rat_of_int a < of_int (int (2 ^ la))"
    by (simp_all only: of_int_le_iff of_int_less_iff)
  then have A: "pow2 (int la - 1) \<le> of_int a" "of_int a < pow2 (int la)"
    using la0 by (simp_all add: pow2_def nat_diff_distrib)
  have "2 ^ (lb - 1) \<le> nat b" "nat b < 2 ^ lb"
    using floorlog_bounds [of "nat b" 2] b by (simp_all add: lb_def)
  then have "int (2 ^ (lb - 1)) \<le> b" "b < int (2 ^ lb)"
    using b by linarith+
  then have "rat_of_int (int (2 ^ (lb - 1))) \<le> of_int b" "rat_of_int b < of_int (int (2 ^ lb))"
    by (simp_all only: of_int_le_iff of_int_less_iff)
  then have B: "pow2 (int lb - 1) \<le> of_int b" "of_int b < pow2 (int lb)"
    using lb0 by (simp_all add: pow2_def nat_diff_distrib)
  have B0: "0 < rat_of_int b" using b by simp
  have "pow2 (d - 1) * of_int b \<le> pow2 (d - 1) * pow2 (int lb)"
    using B(2) pow2_pos [of "d - 1"] by simp
  also have "\<dots> = pow2 (int la - 1)"
    by (simp add: pow2_add [symmetric] d_def)
  finally have lo: "pow2 (d - 1) \<le> q"
    using A(1) B0 by (simp add: q pos_le_divide_eq)
  have "of_int a < pow2 (d + 1) * pow2 (int lb - 1)"
    using A(2) by (simp add: pow2_add [symmetric] d_def)
  also have "\<dots> \<le> pow2 (d + 1) * of_int b"
    using B(1) pow2_pos [of "d + 1"] by simp
  finally have hi: "q < pow2 (d + 1)"
    using B0 by (simp add: q pos_divide_less_eq)
  have bin: "binade q = (if pow2 d \<le> q then d else d - 1)"
    by (simp add: binade_def ab la_def lb_def d_def)
  show ?thesis
    using lo hi by (simp add: bin)
qed

lemma binade_eqI:
  assumes "pow2 e \<le> q" "q < pow2 (e + 1)"
  shows "binade q = e"
proof -
  have q: "0 < q" using assms(1) pow2_pos [of e] by linarith
  note bb = binade_bounds [OF q]
  have "pow2 e < pow2 (binade q + 1)" using assms(1) bb by linarith
  moreover have "pow2 (binade q) < pow2 (e + 1)" using assms(2) bb by linarith
  ultimately show ?thesis by (simp add: pow2_less_iff)
qed

lemma round_half_even_of_int: "round_half_even (of_int j) = j"
  by (simp add: round_half_even_def)

lemma round_half_even_le: "x \<le> of_int j \<Longrightarrow> round_half_even x \<le> j"
proof -
  assume x: "x \<le> of_int j"
  have f: "\<lfloor>x\<rfloor> \<le> j" using x by (simp add: floor_le_iff)
  have "\<lfloor>x\<rfloor> + 1 \<le> j" if "0 < x - of_int \<lfloor>x\<rfloor>"
  proof -
    have "of_int \<lfloor>x\<rfloor> < (of_int j :: rat)" using that x by linarith
    then show ?thesis by simp
  qed
  then show ?thesis
    using f by (auto simp: round_half_even_def Let_def)
qed

lemma round_half_even_ge: "of_int j \<le> x \<Longrightarrow> j \<le> round_half_even x"
proof -
  assume "of_int j \<le> x"
  then have "j \<le> \<lfloor>x\<rfloor>" by (simp add: le_floor_iff)
  then show ?thesis
    by (auto simp: round_half_even_def Let_def)
qed

lemma round_half_even_gt: "of_int j + 1 / 2 < x \<Longrightarrow> j + 1 \<le> round_half_even x"
proof -
  assume x: "of_int j + 1 / 2 < x"
  then have f: "j \<le> \<lfloor>x\<rfloor>" by (simp add: le_floor_iff)
  show ?thesis
  proof (cases "\<lfloor>x\<rfloor> = j")
    case True
    then have "1 / 2 < x - of_int \<lfloor>x\<rfloor>" using x by simp
    then show ?thesis
      using True by (simp add: round_half_even_def Let_def)
  next
    case False
    then have "j + 1 \<le> \<lfloor>x\<rfloor>" using f by linarith
    then show ?thesis
      by (auto simp: round_half_even_def Let_def)
  qed
qed


lemma round_double_pos:
  assumes "0 < q" "- 1022 \<le> binade q"
  shows "round_double q =
         of_int (round_half_even (q / pow2 (binade q - 52))) * pow2 (binade q - 52)"
  using assms by (simp add: round_double_def Let_def max_def)

lemma round_double_exact:
  assumes "pow2 e \<le> q" "q < pow2 (e + 1)" "- 1022 \<le> e" "q = of_int k * pow2 (e - 52)"
  shows "round_double q = q"
proof -
  have q: "0 < q" using assms(1) pow2_pos [of e] by linarith
  have e: "binade q = e" using assms(1,2) by (rule binade_eqI)
  have "q / pow2 (e - 52) = of_int k"
    using pow2_pos [of "e - 52"] by (simp add: assms(4))
  then show ?thesis
    using round_double_pos [of q] q e assms(3,4) by (simp add: round_half_even_of_int)
qed

lemma pow2_neg_inverse: "pow2 (- e) * pow2 e = 1"
  using pow2_add [of "- e" e] by (simp add: pow2_def)

lemma round_double_of_int:
  assumes "0 \<le> n" "n \<le> 2 ^ 53"
  shows "round_double (of_int n) = of_int n"
proof (cases "n = 0")
  case True
  then show ?thesis by (simp add: round_double_def)
next
  case False
  then have n: "0 < n" using assms(1) by simp
  define q where "q = rat_of_int n"
  have q: "0 < q" using n by (simp add: q_def)
  define e where "e = binade q"
  have bb: "pow2 e \<le> q" "q < pow2 (e + 1)"
    using binade_bounds [OF q] by (simp_all add: e_def)
  have "pow2 0 \<le> q" using n by (simp add: q_def pow2_def)
  then have "pow2 0 < pow2 (e + 1)" using bb(2) by linarith
  then have e0: "0 \<le> e" by (simp add: pow2_less_iff)
  have "rat_of_int n \<le> of_int (2 ^ 53)"
    using assms(2) by (simp only: of_int_le_iff)
  then have "q \<le> pow2 53"
    by (simp add: q_def pow2_def)
  then have "pow2 e \<le> pow2 53" using bb(1) by linarith
  then have e53: "e \<le> 53" by (simp add: pow2_le_iff)
  show ?thesis
  proof (cases "e = 53")
    case True
    have "q = pow2 53" using \<open>q \<le> pow2 53\<close> bb(1) True by simp
    then have "q = of_int (2 ^ 52) * pow2 (e - 52)"
      by (simp add: True pow2_def)
    from round_double_exact [OF bb _ this] e0 show ?thesis
      by (simp add: q_def)
  next
    case False
    then have e52: "e \<le> 52" using e53 by simp
    have "pow2 (52 - e) * pow2 (e - 52) = 1"
      using pow2_neg_inverse [of "e - 52"] by simp
    moreover have "pow2 (52 - e) = of_int (2 ^ nat (52 - e))"
      using e52 by (simp add: pow2_def)
    ultimately have "q = of_int (n * 2 ^ nat (52 - e)) * pow2 (e - 52)"
      by (simp add: q_def)
    from round_double_exact [OF bb _ this] e0 show ?thesis
      by (simp add: q_def)
  qed
qed

lemma ceiling_round_double_div:
  assumes d: "1 \<le> d" "d \<le> 2 ^ 53" and t: "1 \<le> t" "t \<le> 2 ^ 53"
  shows "\<lceil>round_double (of_int t / of_int d)\<rceil> = \<lceil>rat_of_int t / of_int d\<rceil>"
proof -
  define q where "q = rat_of_int t / of_int d"
  define k where "k = \<lceil>q\<rceil>"
  have d0: "0 < rat_of_int d" and t0: "0 < rat_of_int t" using d t by simp_all
  have q0: "0 < q" using d0 t0 by (simp add: q_def)
  have qd: "q * of_int d = of_int t" using d0 by (simp add: q_def)
  have k_hi: "q \<le> of_int k" by (simp add: k_def)
  have k_lo: "of_int k - 1 < q" unfolding k_def by linarith
  have t53: "rat_of_int t \<le> 2 ^ 53"
    using t(2) by (simp only: flip: of_int_le_iff [where ?'a = rat]) simp
  have d53: "rat_of_int d \<le> 2 ^ 53"
    using d(2) by (simp only: flip: of_int_le_iff [where ?'a = rat]) simp
  have d1: "1 \<le> rat_of_int d" using d(1) by simp
  have t1: "1 \<le> rat_of_int t" using t(1) by simp
  have "q \<le> of_int t" using d1 t0 by (simp add: q_def divide_le_eq mult_le_cancel_left1)
  then have q53: "q \<le> pow2 53" using t53 by (simp add: pow2_def)
  have "1 / of_int d \<le> q" using t1 d0 by (simp add: q_def divide_le_cancel)
  moreover have "pow2 (- 53) \<le> 1 / of_int d"
    using d53 d0 by (simp add: pow2_def frac_le)
  ultimately have qlow: "pow2 (- 53) \<le> q" by linarith
  define e where "e = binade q"
  have bb: "pow2 e \<le> q" "q < pow2 (e + 1)"
    using binade_bounds [OF q0] by (simp_all add: e_def)
  have "pow2 e \<le> pow2 53" using bb(1) q53 by linarith
  then have e53: "e \<le> 53" by (simp add: pow2_le_iff)
  have "pow2 (- 53) < pow2 (e + 1)" using bb(2) qlow by linarith
  then have elow: "- 53 \<le> e" by (simp add: pow2_less_iff)
  define u where "u = pow2 (e - 52)"
  have u0: "0 < u" by (simp add: u_def pow2_pos)
  have R: "round_double q = of_int (round_half_even (q / u)) * u"
    using round_double_pos [of q] q0 elow by (simp add: e_def u_def)
  show ?thesis
  proof (cases "q = of_int k")
    case True
    have "0 \<le> k" using q0 True by simp
    moreover have "rat_of_int k \<le> of_int (2 ^ 53)" using True q53 by (simp add: pow2_def)
    then have "k \<le> 2 ^ 53" by (simp only: of_int_le_iff)
    ultimately have "round_double (of_int k) = of_int k"
      by (rule round_double_of_int)
    then show ?thesis
      unfolding q_def [symmetric] k_def [symmetric] by (simp add: True)
  next
    case False
    then have qk: "q < of_int k" using k_hi by simp
    have e52: "e \<le> 52"
    proof (rule ccontr)
      assume "\<not> e \<le> 52"
      then have "e = 53" using e53 by simp
      then have "q = pow2 53" using bb(1) q53 by simp
      then have "q = of_int (2 ^ 53)" by (simp add: pow2_def)
      then have "\<lceil>q\<rceil> = 2 ^ 53" by (simp only: ceiling_of_int)
      then show False using False \<open>q = of_int (2 ^ 53)\<close> by (simp add: k_def)
    qed
    define M :: int where "M = 2 ^ nat (52 - e)"
    have Mu: "of_int M * u = 1"
      using pow2_neg_inverse [of "e - 52"] e52 by (simp add: M_def u_def pow2_def)
    have divu: "of_int j / u = of_int (j * M)" for j
      using Mu u0 by (simp add: field_simps)
    have upper: "round_double q \<le> of_int k"
    proof -
      have "q / u \<le> of_int k / u"
        using k_hi u0 by (simp add: divide_right_mono)
      then have "q / u \<le> of_int (k * M)"
        by (simp only: divu)
      then have "round_half_even (q / u) \<le> k * M" by (rule round_half_even_le)
      then have "rat_of_int (round_half_even (q / u)) \<le> of_int (k * M)"
        by (simp only: of_int_le_iff)
      then have "round_double q \<le> of_int (k * M) * u"
        using u0 by (simp add: R)
      also have "\<dots> = of_int k" using Mu by (simp add: mult.assoc)
      finally show ?thesis .
    qed
    have lower: "of_int k - 1 < round_double q"
    proof (cases "k = 1")
      case True
      have "pow2 52 * u = pow2 e" by (simp add: u_def pow2_add [symmetric])
      then have "pow2 52 \<le> q / u" using bb(1) u0 by (simp add: pos_le_divide_eq)
      then have "of_int 1 \<le> q / u" by (simp add: pow2_def)
      then have "1 \<le> round_half_even (q / u)" by (rule round_half_even_ge)
      then have "0 < rat_of_int (round_half_even (q / u))" by simp
      then have "0 < round_double q" using u0 by (simp add: R)
      then show ?thesis using True by simp
    next
      case False
      have "0 < k" using q0 k_hi
        by (metis (no_types) less_le_trans of_int_0_less_iff)
      then have k2: "2 \<le> k" using False by simp
      then have "1 \<le> rat_of_int k - 1" by simp
      then have q1: "1 < q" using k_lo by linarith
      then have "pow2 0 < pow2 (e + 1)" using bb(2) by (simp add: pow2_def)
      then have e0: "0 \<le> e" by (simp add: pow2_less_iff)
      define P :: int where "P = 2 ^ nat e"
      have P: "pow2 e = of_int P" using e0 by (simp add: P_def pow2_def)
      have "of_int P < rat_of_int k" using bb(1) qk P by linarith
      then have "P \<le> k - 1" by simp
      then have Pk: "rat_of_int P \<le> of_int k - 1"
        by (metis of_int_le_iff of_int_diff of_int_1)
      have "rat_of_int (t - d * (k - 1)) = of_int d * (q - (of_int k - 1))"
        using qd by (simp add: algebra_simps)
      moreover have "0 < of_int d * (q - (of_int k - 1))"
        using d0 k_lo by simp
      ultimately have "0 < t - d * (k - 1)"
        by (metis of_int_0_less_iff)
      then have "1 \<le> t - d * (k - 1)" by simp
      then have "rat_of_int 1 \<le> rat_of_int (t - d * (k - 1))" by (simp only: of_int_le_iff)
      then have "1 \<le> rat_of_int (t - d * (k - 1))" by (simp only: of_int_1)
      then have gap: "1 \<le> of_int d * (q - (of_int k - 1))"
        using qd by (simp add: algebra_simps)
      have "of_int d * pow2 e \<le> of_int d * (of_int k - 1)"
        using P Pk d0 by simp
      also have "\<dots> < of_int d * q" using k_lo d0 by simp
      also have "\<dots> \<le> 2 ^ 53" using qd t53 by (simp add: mult.commute)
      finally have "of_int d * pow2 e < pow2 53" by (simp add: pow2_def)
      moreover have "pow2 e = u * pow2 52" by (simp add: u_def pow2_add [symmetric])
      moreover have "pow2 53 = 2 * pow2 52" by (simp add: pow2_def)
      ultimately have du: "of_int d * u < 2"
        using pow2_pos [of 52] by simp
      have "u < 2 * (q - (of_int k - 1))"
      proof -
        have "of_int d * u < 2 * (of_int d * (q - (of_int k - 1)))"
          using du gap by linarith
        then have "of_int d * u < of_int d * (2 * (q - (of_int k - 1)))"
          by (simp add: algebra_simps)
        then show ?thesis using d0 by (simp only: mult_less_cancel_left_pos)
      qed
      then have "(of_int k - 1) + u / 2 < q" by simp
      then have "((of_int k - 1) + u / 2) / u < q / u"
        using u0 by (simp only: divide_strict_right_mono)
      then have "of_int ((k - 1) * M) + 1 / 2 < q / u"
        using u0 divu [of "k - 1"] by (simp add: add_divide_distrib)
      then have "(k - 1) * M + 1 \<le> round_half_even (q / u)"
        by (rule round_half_even_gt)
      then have "rat_of_int ((k - 1) * M + 1) \<le> of_int (round_half_even (q / u))"
        by (simp only: of_int_le_iff)
      then have "rat_of_int ((k - 1) * M + 1) * u \<le> round_double q"
        using u0 by (simp add: R)
      moreover have "rat_of_int ((k - 1) * M + 1) * u = (of_int k - 1) + u"
        using Mu by (simp add: algebra_simps)
      ultimately show ?thesis using u0 by linarith
    qed
    have "\<lceil>round_double q\<rceil> = k"
      using lower upper by (rule ceiling_unique)
    then show ?thesis
      unfolding q_def [symmetric] k_def [symmetric] .
  qed
qed


section \<open>The derived values of \<open>Pagination\<close>\<close>

lemma py_float_small:
  assumes "0 \<le> n" "n \<le> 2 ^ 53"
  shows "py_float n = Inr (of_int n)"
proof -
  have "rat_of_int n \<le> of_int (2 ^ 53)"
    using assms(2) by (simp only: of_int_le_iff)
  then have "\<bar>rat_of_int n\<bar> < 2 ^ 1024"
    using assms(1) by simp
  then show ?thesis
    using round_double_of_int [OF assms] by (simp add: py_float_def)
qed

lemma pages_small:
  assumes "0 < per_page p" "per_page p \<le> 2 ^ 53" "0 \<le> total p" "total p \<le> 2 ^ 53"
  shows "pages p = Inr \<lceil>rat_of_int (total p) / rat_of_int (per_page p)\<rceil>"
proof -
  define d where "d = per_page p"
  define t where "t = total p"
  have d: "1 \<le> d" "d \<le> 2 ^ 53" and t: "0 \<le> t" "t \<le> 2 ^ 53"
    using assms by (simp_all add: d_def t_def)
  have fd: "py_float d = Inr (of_int d)"
    using d by (intro py_float_small) simp_all
  have ft: "py_float t = Inr (of_int t)"
    using t by (rule py_float_small)
  have d0: "rat_of_int d \<noteq> 0" using d(1) by simp
  have "\<lceil>round_double (rat_of_int t / of_int d)\<rceil> = \<lceil>rat_of_int t / of_int d\<rceil>"
  proof (cases "t = 0")
    case True
    then show ?thesis by (simp add: round_double_def)
  next
    case False
    then have "1 \<le> t" using t(1) by simp
    then show ?thesis using d t(2) by (intro ceiling_round_double_div)
  qed
  then have "float_div (of_int t) (of_int d) = Inr (round_double (rat_of_int t / of_int d))
        \<and> \<lceil>round_double (rat_of_int t / of_int d)\<rceil> = \<lceil>rat_of_int t / of_int d\<rceil>"
    using d0 by (simp add: float_div_def)
  then show ?thesis
    by (simp add: pages_def fd ft d_def [symmetric] t_def [symmetric])
qed

text \<open>
  C6, as amended. For every Pagination value whose \<open>per_page\<close> is a positive integer
  and whose \<open>total\<close> is a non-negative integer, both at most \<open>2 ^ 53\<close> (the integers a
  double holds exactly): \<open>pages\<close> is the ceiling of \<open>total / per_page\<close>, \<open>has_prev\<close> is
  \<open>page > 1\<close> and \<open>has_next\<close> is \<open>page < pages\<close>.
\<close>

theorem pagination_derived_values:
  assumes "0 < per_page p" "per_page p \<le> 2 ^ 53" "0 \<le> total p" "total p \<le> 2 ^ 53"
  shows "pages p = Inr \<lceil>rat_of_int (total p) / rat_of_int (per_page p)\<rceil>
         \<and> has_prev p = (1 < page p)
         \<and> has_next p = Inr (page p < \<lceil>rat_of_int (total p) / rat_of_int (per_page p)\<rceil>)"
  using pages_small [OF assms] by (simp add: has_prev_def has_next_def)

theorem pagination_derived_values_witness:
  "pages \<lparr>page = 3, per_page = 10, total = 23, items = [] :: unit list\<rparr> = Inr 3
   \<and> has_prev \<lparr>page = 3, per_page = 10, total = 23, items = [] :: unit list\<rparr>
   \<and> has_next \<lparr>page = 3, per_page = 10, total = 23, items = [] :: unit list\<rparr> = Inr False"
proof -
  have "\<lceil>(23 :: rat) / 10\<rceil> = 3"
    by (rule ceiling_unique) simp_all
  then show ?thesis
    using pagination_derived_values
            [of "\<lparr>page = 3, per_page = 10, total = 23, items = [] :: unit list\<rparr>"]
    by simp
qed

text \<open>
  C6, as stated, fails where the double loses precision: with \<open>per_page = 1\<close> and
  \<open>total = 2 ^ 53 + 1\<close> the conversion of \<open>total\<close> rounds to \<open>2 ^ 53\<close>, and \<open>pages\<close> is
  \<open>2 ^ 53\<close>, not the ceiling \<open>2 ^ 53 + 1\<close>.
\<close>

lemma round_double_tie: "round_double (2 ^ 53 + 1) = 2 ^ 53"
proof -
  have "binade (2 ^ 53 + 1) = 53"
    by (rule binade_eqI) (simp_all add: pow2_def)
  moreover have "\<lfloor>(9007199254740993 :: rat) / 2\<rfloor> = 4503599627370496"
    by (rule floor_unique) simp_all
  ultimately show ?thesis
    by (simp add: round_double_def round_half_even_def pow2_def Let_def)
qed

theorem pages_precision_counterexample:
  "pages \<lparr>page = 1, per_page = 1, total = 2 ^ 53 + 1, items = [] :: unit list\<rparr> = Inr (2 ^ 53)
   \<and> pages \<lparr>page = 1, per_page = 1, total = 2 ^ 53 + 1, items = [] :: unit list\<rparr>
       \<noteq> Inr \<lceil>rat_of_int (2 ^ 53 + 1) / rat_of_int 1\<rceil>"
proof -
  have one: "py_float 1 = Inr 1"
    using py_float_small [of 1] by simp
  have big: "py_float 9007199254740993 = Inr 9007199254740992"
    using round_double_tie by (simp add: py_float_def)
  have "round_double 9007199254740992 = 9007199254740992"
    using round_double_of_int [of "2 ^ 53"] by simp
  then have quot: "float_div 9007199254740992 1 = Inr 9007199254740992"
    by (simp add: float_div_def)
  show ?thesis
    by (simp add: pages_def one big quot)
qed

section \<open>Page window of \<open>iter_pages\<close>\<close>

lemma iter_pages_loop_with_gaps:
  "iter_pages_loop keep l ns = with_gaps l (filter keep ns)"
  by (induction ns arbitrary: l) auto

lemma with_gaps_hd:
  "with_gaps l ns = Some b # vs \<Longrightarrow> b = l + 1"
  by (cases ns) (auto split: if_splits)

lemma with_gaps_adjacent:
  "with_gaps l ns = us @ Some a # Some b # vs \<Longrightarrow> b = a + 1"
proof (induction ns arbitrary: l us)
  case Nil
  then show ?case by simp
next
  case (Cons n ns)
  show ?case
  proof (cases us)
    case Nil
    with Cons.prems show ?thesis
      by (auto split: if_splits dest: with_gaps_hd)
  next
    case (Cons u us')
    note us = this
    show ?thesis
    proof (cases us')
      case Nil
      with us Cons.prems Cons.IH [of n "[]"] show ?thesis
        by (auto split: if_splits dest: with_gaps_hd)
    next
      case (Cons u' us'')
      with us Cons.prems have "\<exists>ws. with_gaps n ns = ws @ Some a # Some b # vs"
        by (auto split: if_splits)
      then show ?thesis using Cons.IH by blast
    qed
  qed
qed

lemma with_gaps_Some: "Some n \<in> set (with_gaps l ns) \<longleftrightarrow> n \<in> set ns"
  by (induction ns arbitrary: l) auto

text \<open>
  C5. Whenever the page count \<open>pages\<close> is defined, \<open>iter_pages\<close> yields the number
  \<open>n\<close> iff \<open>n\<close> is one of \<open>1 .. pages\<close> and \<open>n \<le> left_edge\<close> or
  \<open>pages - n < right_edge\<close> or \<open>page - left_current - 1 < n < page + right_current\<close>;
  its output is the qualifying numbers in order with a gap marker exactly before each
  number that is not the last yielded one plus one (the last yielded one being 0 at the
  start); and two numbers yielded one right after the other are adjacent.
\<close>

theorem iter_pages_window:
  assumes "pages p = Inr pgs"
  shows "\<exists>out. iter_pages p left_edge left_current right_current right_edge = Inr out
           \<and> (\<forall>n. Some n \<in> set out \<longleftrightarrow>
                  1 \<le> n \<and> n \<le> pgs \<and>
                  (n \<le> left_edge \<or> pgs - n < right_edge \<or>
                   (page p - left_current - 1 < n \<and> n < page p + right_current)))
           \<and> out = with_gaps 0
                 (filter (\<lambda>n. n \<le> left_edge \<or> pgs - n < right_edge \<or>
                                (page p - left_current - 1 < n \<and> n < page p + right_current))
                    [1..pgs])
           \<and> (\<forall>us a b vs. out = us @ Some a # Some b # vs \<longrightarrow> b = a + 1)"
proof -
  let ?keep = "shown (page p) pgs left_edge left_current right_current right_edge"
  let ?out = "with_gaps 0 (filter ?keep [1..pgs])"
  have run: "iter_pages p left_edge left_current right_current right_edge = Inr ?out"
    using assms by (simp add: iter_pages_def iter_pages_loop_with_gaps)
  have keep: "?keep = (\<lambda>n. n \<le> left_edge \<or> pgs - n < right_edge \<or>
                (page p - left_current - 1 < n \<and> n < page p + right_current))"
    by (auto simp: shown_def fun_eq_iff)
  have mem: "\<forall>n. Some n \<in> set ?out \<longleftrightarrow>
               1 \<le> n \<and> n \<le> pgs \<and>
               (n \<le> left_edge \<or> pgs - n < right_edge \<or>
                (page p - left_current - 1 < n \<and> n < page p + right_current))"
    unfolding with_gaps_Some keep by auto
  have adj: "\<forall>us a b vs. ?out = us @ Some a # Some b # vs \<longrightarrow> b = a + 1"
    using with_gaps_adjacent by blast
  show ?thesis
    using run mem adj unfolding keep by blast
qed

theorem iter_pages_window_witness:
  "pages \<lparr>page = 10, per_page = 10, total = 300, items = [] :: unit list\<rparr> = Inr 30
   \<and> (\<exists>out. iter_pages \<lparr>page = 10, per_page = 10, total = 300, items = [] :: unit list\<rparr>
               2 2 5 2 = Inr out
         \<and> (\<forall>n. Some n \<in> set out \<longleftrightarrow>
                  1 \<le> n \<and> n \<le> 30 \<and> (n \<le> 2 \<or> 30 - n < 2 \<or> (10 - 2 - 1 < n \<and> n < 10 + 5)))
         \<and> (\<forall>us a b vs. out = us @ Some a # Some b # vs \<longrightarrow> b = a + 1))"
proof -
  have "\<lceil>(300 :: rat) / 10\<rceil> = 30"
    by (rule ceiling_unique) simp_all
  then have h: "pages \<lparr>page = 10, per_page = 10, total = 300, items = [] :: unit list\<rparr> = Inr 30"
    using pages_small [of "\<lparr>page = 10, per_page = 10, total = 300, items = [] :: unit list\<rparr>"]
    by simp
  show ?thesis
    using h iter_pages_window [OF h, of 2 2 5 2] by simp
qed


section \<open>\<open>LDAPOMService.paginate\<close>\<close>

lemma ldapom_all_people:
  "ldapom_all (people n) =
     (map person [0..<n], (people n)\<lparr>ldap := (ldap (people n))\<lparr>calls := [Search []]\<rparr>\<rparr>)"
proof -
  have "filter (\<lambda>x. cls x = ''person'' \<and> matches [] x) (map person [0..<n]) = map person [0..<n]"
    by (simp add: filter_map o_def person_def matches_def)
  then show ?thesis
    by (simp add: ldapom_all_def search_def people_def)
qed

lemma paginate_people:
  "fst (ldapom_paginate pg per order_by desc [] error_out (people n)) =
     (if error_out \<and> (pg - 1) * per < int n then Inl NotFound
      else Inr \<lparr>page = pg, per_page = per, total = int n,
                items = py_slice ((pg - 1) * per) (pg * per) (map person [0..<n])\<rparr>)"
  by (simp add: ldapom_paginate_def ldapom_all_people Let_def)

text \<open>
  C1. On a directory of 23 records with \<open>per_page = 10\<close> and \<open>error_out\<close> on,
  \<open>paginate(page=5)\<close> does not signal not-found: it returns the empty fifth page. Page 1,
  which has items, is the one that signals not-found. The test before \<^verbatim>\<open>abort(404)\<close>
  is the opposite of what the specification and the docstring of \<open>paginate\<close> say.
\<close>

theorem paginate_error_out_inverted:
  "fst (ldapom_paginate 5 10 None False [] True (people 23)) =
     Inr \<lparr>page = 5, per_page = 10, total = 23, items = []\<rparr>
   \<and> fst (ldapom_paginate 1 10 None False [] True (people 23)) = Inl NotFound"
  by (simp add: paginate_people py_slice_def slice_index_def)

text \<open>
  C2. On a directory of 23 records with \<open>per_page = 10\<close> and the default
  \<open>error_out\<close>, \<open>paginate(page=3)\<close> signals not-found instead of returning the three
  items of the third page.
\<close>

theorem paginate_third_page_not_found:
  "fst (ldapom_paginate 3 10 None False [] True (people 23)) = Inl NotFound"
  by (simp add: paginate_people)

text \<open>
  In general, with \<open>error_out\<close> on and no filter, \<open>paginate\<close> signals not-found exactly
  when the page starts inside the listing.
\<close>

lemma paginate_not_found_iff:
  "fst (ldapom_paginate pg per order_by desc [] True s) = Inl NotFound
     \<longleftrightarrow> (pg - 1) * per < int (length (fst (ldapom_all s)))"
  by (simp add: ldapom_paginate_def Let_def split: prod.split)

lemma paginate_third_page_without_error_out:
  "fst (ldapom_paginate 3 10 None False [] False (people 23)) =
     Inr \<lparr>page = 3, per_page = 10, total = 23, items = map person [20..<23]\<rparr>"
  by (simp add: paginate_people py_slice_def slice_index_def drop_map take_map)

text \<open>
  C7. With a non-empty \<open>filter_by\<close>, \<open>paginate\<close> raises \<open>NotImplementedError\<close> for
  every \<open>page\<close>, \<open>per_page\<close>, \<open>order_by\<close>, \<open>desc\<close> and \<open>error_out\<close>, and the service
  instance is the one it was called on: no call reached the directory.
\<close>

theorem paginate_filter_by_unsupported:
  "filter_by \<noteq> [] \<Longrightarrow>
   ldapom_paginate pg per order_by desc filter_by error_out s = (Inl NotImplementedError, s)"
  by (simp add: ldapom_paginate_def)

theorem paginate_filter_by_unsupported_witness:
  "[(''lastname'', PStr ''Carter'')] \<noteq> []
   \<and> ldapom_paginate 1 10 None False [(''lastname'', PStr ''Carter'')] True (people 4)
       = (Inl NotImplementedError, people 4)"
  using paginate_filter_by_unsupported [of "[(''lastname'', PStr ''Carter'')]" 1 10 None False True "people 4"]
  by simp

lemma take_min_length: "take (min b (length ys)) ys = take b ys"
  by (simp add: min_def)

lemma py_slice_nonneg:
  "py_slice (int a) (int a + int b) xs = take b (drop a xs)"
proof (cases "a \<le> length xs")
  case True
  have "nat (int a + int b) = a + b" by simp
  then have "py_slice (int a) (int a + int b) xs =
        take (min (a + b) (length xs) - a) (drop a xs)"
    using True by (simp add: py_slice_def slice_index_def Let_def)
  also have "min (a + b) (length xs) - a = min b (length (drop a xs))"
    using True by (auto simp: min_def)
  finally show ?thesis by (simp only: take_min_length)
next
  case False
  then show ?thesis
    by (simp add: py_slice_def slice_index_def Let_def)
qed

lemma py_slice_page:
  assumes "1 \<le> pg" "0 \<le> per"
  shows "py_slice ((pg - 1) * per) (pg * per) xs =
         take (nat per) (drop (nat (pg - 1) * nat per) xs)"
proof -
  have lo: "(pg - 1) * per = int (nat (pg - 1) * nat per)"
    using assms by simp
  have hi: "pg * per = int (nat (pg - 1) * nat per) + int (nat per)"
    using assms by (simp add: algebra_simps)
  show ?thesis
    unfolding hi unfolding lo by (rule py_slice_nonneg)
qed

lemma concat_chunks:
  "concat (map (\<lambda>i. take b (drop (i * b) xs)) [0..<k]) = take (k * b) xs"
proof (induction k)
  case 0
  then show ?case by simp
next
  case (Suc k)
  have "take (k * b) xs @ take b (drop (k * b) xs) = take (k * b + b) xs"
    by (simp add: take_add)
  then show ?case using Suc by (simp add: add.commute)
qed

text \<open>
  With \<open>error_out\<close> off, \<open>paginate\<close> on the empty filter returns the slice of the
  listing; no page is longer than \<open>per_page\<close>, and the pages \<open>1 .. k\<close> in order are the
  first \<open>k * per_page\<close> records, the whole listing once \<open>k * per_page\<close> reaches its length.
\<close>

lemma paginate_returns_slice:
  "ldapom_paginate pg per order_by desc [] False s =
     (Inr \<lparr>page = pg, per_page = per, total = int (length (fst (ldapom_all s))),
            items = py_slice ((pg - 1) * per) (pg * per) (fst (ldapom_all s))\<rparr>,
      snd (ldapom_all s))"
  by (simp add: ldapom_paginate_def Let_def split: prod.split)

lemma page_items_length:
  assumes "1 \<le> pg" "0 \<le> per"
  shows "int (length (py_slice ((pg - 1) * per) (pg * per) xs)) \<le> per"
  using assms by (simp add: py_slice_page)

lemma pages_concat:
  assumes "0 \<le> per" "length xs \<le> k * nat per"
  shows "concat (map (\<lambda>pg. py_slice ((pg - 1) * per) (pg * per) xs) [1..int k]) = xs"
proof -
  have upto: "[1..int k] = map (\<lambda>i. int i + 1) [0..<k]"
  proof (induction k)
    case 0
    then show ?case by simp
  next
    case (Suc k)
    have "[1..int (Suc k)] = [1..int k] @ [int k + 1]"
      using upto_rec2 [of 1 "int k + 1"] by (simp add: add.commute)
    then show ?case using Suc by simp
  qed
  have step: "py_slice (int i * per) ((int i + 1) * per) xs =
        take (nat per) (drop (i * nat per) xs)" for i
    using py_slice_page [of "int i + 1" per xs] assms(1) by simp
  have "concat (map (\<lambda>pg. py_slice ((pg - 1) * per) (pg * per) xs) [1..int k]) =
        concat (map (\<lambda>i. take (nat per) (drop (i * nat per) xs)) [0..<k])"
    by (simp add: upto o_def step)
  then show ?thesis
    using assms(2) by (simp add: concat_chunks)
qed

text \<open>
  The third page of the 23 records, fetched with \<open>error_out\<close> off, has three items,
  \<open>pages = 3\<close>, no next page and a previous one; and the pages \<open>1 .. pages\<close> of any
  listing of at most \<open>2 ^ 53\<close> records, in order, are the listing.
\<close>

lemma paginate_third_page_values:
  "pages \<lparr>page = 3, per_page = 10, total = 23, items = map person [20..<23]\<rparr> = Inr 3
   \<and> has_next \<lparr>page = 3, per_page = 10, total = 23, items = map person [20..<23]\<rparr> = Inr False
   \<and> has_prev \<lparr>page = 3, per_page = 10, total = 23, items = map person [20..<23]\<rparr>
   \<and> length (map person [20..<23]) = 3"
proof -
  have "\<lceil>(23 :: rat) / 10\<rceil> = 3"
    by (rule ceiling_unique) simp_all
  then have "pages \<lparr>page = 3, per_page = 10, total = 23, items = map person [20..<23]\<rparr> = Inr 3"
    using pages_small [of "\<lparr>page = 3, per_page = 10, total = 23, items = map person [20..<23]\<rparr>"]
    by simp
  then show ?thesis
    by (simp add: has_next_def has_prev_def)
qed

lemma paginate_pages_concat:
  assumes per: "0 < per" "per \<le> 2 ^ 53"
    and len: "int (length (fst (ldapom_all s))) \<le> 2 ^ 53"
    and pg: "pages \<lparr>page = 1, per_page = per, total = int (length (fst (ldapom_all s))),
                    items = [] :: obj list\<rparr> = Inr k"
  shows "concat (map (\<lambda>i. items (projr (fst (ldapom_paginate i per order_by desc [] False s))))
           [1..k]) = fst (ldapom_all s)"
proof -
  define xs where "xs = fst (ldapom_all s)"
  have "pages \<lparr>page = 1, per_page = per, total = int (length xs), items = [] :: obj list\<rparr>
        = Inr \<lceil>rat_of_int (int (length xs)) / rat_of_int per\<rceil>"
    using pages_small [of "\<lparr>page = 1, per_page = per, total = int (length xs), items = [] :: obj list\<rparr>"]
      per len by (simp add: xs_def)
  then have k: "k = \<lceil>rat_of_int (int (length xs)) / rat_of_int per\<rceil>"
    using pg by (simp add: xs_def)
  have "rat_of_int (int (length xs)) / rat_of_int per \<le> of_int k"
    unfolding k by (rule le_of_int_ceiling)
  then have "rat_of_int (int (length xs)) \<le> of_int k * of_int per"
    using per(1) by (simp add: pos_divide_le_eq)
  then have le: "int (length xs) \<le> k * per"
    by (simp only: flip: of_int_mult of_int_le_iff [where ?'a = rat])
  have "0 \<le> rat_of_int (int (length xs)) / rat_of_int per"
    using per(1) by simp
  then have "- 1 < rat_of_int (int (length xs)) / rat_of_int per"
    by linarith
  then have k0: "0 \<le> k" unfolding k by (simp only: zero_le_ceiling)
  have "int (length xs) \<le> int (nat k * nat per)"
    using le k0 per(1) by simp
  then have "length xs \<le> nat k * nat per" by (simp only: of_nat_le_iff)
  then have "concat (map (\<lambda>pg. py_slice ((pg - 1) * per) (pg * per) xs) [1..int (nat k)]) = xs"
    using per(1) by (intro pages_concat) simp_all
  then show ?thesis
    using k0 by (simp add: paginate_returns_slice xs_def)
qed

section \<open>\<open>save\<close> and \<open>delete\<close>\<close>

lemma sqlalchemy_save_type_checked:
  "cls x \<noteq> sql_model s \<Longrightarrow> sqlalchemy_save x s = (Inl ValueError, s)"
  by (simp add: sqlalchemy_save_def base_isinstance_def)

lemma sqlalchemy_delete_type_checked:
  "cls x \<noteq> sql_model s \<Longrightarrow> sqlalchemy_delete x s = (Inl ValueError, s)"
  by (simp add: sqlalchemy_delete_def base_isinstance_def)

lemma ldapom_update_type_checked:
  "cls x \<noteq> model s \<Longrightarrow> ldapom_update x kw s = (Inl ValueError, s)"
  by (simp add: ldapom_update_def base_isinstance_def)

text \<open>
  C9. \<open>LDAPOMService.save\<close> and \<open>LDAPOMService.delete\<close> do not check the type. Given
  an object of another class, \<open>save\<close> on a service of persons stores it over the person
  with the same id and returns it, and \<open>delete\<close> removes that person, where
  \<open>SQLAlchemyService\<close> and \<open>LDAPOMService.update\<close> raise \<open>ValueError\<close> first.
\<close>

theorem ldapom_save_delete_unchecked:
  "cls \<lparr>cls = ''group'', obj_id = ''p'', attrs = []\<rparr> \<noteq> model (people 2)
   \<and> fst (ldapom_save \<lparr>cls = ''group'', obj_id = ''p'', attrs = []\<rparr> (people 2))
       = Inr \<lparr>cls = ''group'', obj_id = ''p'', attrs = []\<rparr>
   \<and> entries (ldap (snd (ldapom_save \<lparr>cls = ''group'', obj_id = ''p'', attrs = []\<rparr> (people 2))))
       = [\<lparr>cls = ''group'', obj_id = ''p'', attrs = []\<rparr>, person 1]
   \<and> fst (ldapom_delete \<lparr>cls = ''group'', obj_id = ''p'', attrs = []\<rparr> (people 2)) = Inr ()
   \<and> entries (ldap (snd (ldapom_delete \<lparr>cls = ''group'', obj_id = ''p'', attrs = []\<rparr> (people 2))))
       = [person 1]"
  by (simp add: ldapom_save_def ldapom_delete_def obj_save_def obj_delete_def people_def
      person_def upt_rec)

section \<open>\<open>get_all\<close>\<close>

lemma ldapom_get_fst:
  "fst (ldapom_get i s) =
     (case find (\<lambda>x. cls x = model s \<and> obj_id x = i) (entries (ldap s)) of
        None \<Rightarrow> Inl NoResultFound | Some x \<Rightarrow> Inr x)"
  by (simp add: ldapom_get_def retrieve_def)

lemma ldapom_get_same: "same_directory s (snd (ldapom_get i s))"
  by (simp add: ldapom_get_def retrieve_def same_directory_def)

lemma ldapom_get_cong:
  "same_directory s s' \<Longrightarrow> fst (ldapom_get i s') = fst (ldapom_get i s)"
  by (simp add: ldapom_get_fst same_directory_def)

lemma ldapom_get_id: "fst (ldapom_get i s) = Inr x \<Longrightarrow> obj_id x = i \<and> cls x = model s"
  by (auto simp: ldapom_get_fst split: option.splits dest: find_Some_iff [THEN iffD1])

lemma get_all_results:
  "same_directory s s' \<Longrightarrow>
   fst (ldapom_get_all ids s') = Inr xs \<longleftrightarrow> map (\<lambda>i. fst (ldapom_get i s)) ids = map Inr xs"
proof (induction ids arbitrary: s' xs)
  case Nil
  then show ?case by auto
next
  case (Cons i ids)
  obtain r s1 where g: "ldapom_get i s' = (r, s1)" by (cases "ldapom_get i s'")
  have r: "r = fst (ldapom_get i s)"
    using ldapom_get_cong [OF Cons.prems, of i] g by simp
  have "same_directory s' s1" using ldapom_get_same [of s' i] g by simp
  then have s1: "same_directory s s1"
    using Cons.prems by (simp add: same_directory_def)
  show ?case
  proof (cases r)
    case (Inl e)
    then show ?thesis using g r by (auto simp: map_eq_Cons_conv)
  next
    case (Inr x)
    obtain r2 s2 where ga: "ldapom_get_all ids s1 = (r2, s2)"
      by (cases "ldapom_get_all ids s1")
    have IH: "r2 = Inr ys \<longleftrightarrow> map (\<lambda>i. fst (ldapom_get i s)) ids = map Inr ys" for ys
      using Cons.IH [OF s1, of ys] ga by simp
    show ?thesis
    proof (cases r2)
      case (Inl e)
      have res: "fst (ldapom_get_all (i # ids) s') = Inl e"
        using g ga \<open>r = Inr x\<close> Inl by simp
      have "map (\<lambda>i. fst (ldapom_get i s)) ids \<noteq> map Inr zs" for zs
        using IH [of zs] Inl by simp
      then show ?thesis
        unfolding res by (cases xs) simp_all
    next
      case (Inr ys)
      have res: "fst (ldapom_get_all (i # ids) s') = Inr (x # ys)"
        using g ga \<open>r = Inr x\<close> Inr by simp
      have hd: "fst (ldapom_get i s) = Inr x"
        using r \<open>r = Inr x\<close> by simp
      have tl: "map (\<lambda>i. fst (ldapom_get i s)) ids = map Inr zs \<longleftrightarrow> zs = ys" for zs
        using IH [of zs] Inr by auto
      show ?thesis
      proof (cases xs)
        case Nil
        then show ?thesis unfolding res by simp
      next
        case (Cons z zs)
        then show ?thesis
          unfolding res using tl [of zs] by (auto simp: hd)
      qed
    qed
  qed
qed

lemma get_all_fails:
  "same_directory s s' \<Longrightarrow> i \<in> set ids \<Longrightarrow> fst (ldapom_get i s) = Inl e \<Longrightarrow>
   \<exists>e'. fst (ldapom_get_all ids s') = Inl e'"
proof -
  assume sd: "same_directory s s'" and i: "i \<in> set ids" and e: "fst (ldapom_get i s) = Inl e"
  show ?thesis
  proof (cases "fst (ldapom_get_all ids s')")
    case (Inl e')
    then show ?thesis by blast
  next
    case (Inr xs)
    then have "map (\<lambda>i. fst (ldapom_get i s)) ids = map Inr xs"
      using get_all_results [OF sd] by simp
    then have "fst (ldapom_get i s) \<in> set (map Inr xs)"
      using i by (metis (no_types, lifting) image_eqI list.set_map)
    then show ?thesis using e by auto
  qed
qed

lemma same_directory_refl: "same_directory s s"
  by (simp add: same_directory_def)

text \<open>
  C10. \<open>get_all(ids)\<close> returns the list \<open>xs\<close> exactly when \<open>get\<close> of each id, in the
  order given, returns the record at the same place of \<open>xs\<close>: one record per id, each
  with the id asked for; and when \<open>get\<close> fails for one of the ids, the whole call fails.
\<close>

theorem get_all_one_per_id_in_order:
  "(fst (ldapom_get_all ids s) = Inr xs \<longleftrightarrow> map (\<lambda>i. fst (ldapom_get i s)) ids = map Inr xs)
   \<and> (fst (ldapom_get_all ids s) = Inr xs \<longrightarrow> length xs = length ids \<and> map obj_id xs = ids)
   \<and> ((\<exists>i \<in> set ids. \<exists>e. fst (ldapom_get i s) = Inl e) \<longrightarrow>
        (\<exists>e. fst (ldapom_get_all ids s) = Inl e))"
proof -
  have a: "fst (ldapom_get_all ids s) = Inr xs \<longleftrightarrow> map (\<lambda>i. fst (ldapom_get i s)) ids = map Inr xs"
    using get_all_results [OF same_directory_refl] .
  have b: "length xs = length ids \<and> map obj_id xs = ids"
    if "fst (ldapom_get_all ids s) = Inr xs"
  proof -
    have m: "map (\<lambda>i. fst (ldapom_get i s)) ids = map Inr xs" using that a by simp
    then have len: "length xs = length ids" by (metis length_map)
    have "obj_id (xs ! n) = ids ! n" if "n < length ids" for n
    proof -
      have "map (\<lambda>i. fst (ldapom_get i s)) ids ! n = map Inr xs ! n" using m by simp
      then have "fst (ldapom_get (ids ! n) s) = Inr (xs ! n)" using that len by simp
      then show ?thesis using ldapom_get_id by blast
    qed
    then have "map obj_id xs = ids" using len by (simp add: list_eq_iff_nth_eq)
    then show ?thesis using len by simp
  qed
  have c: "\<exists>e. fst (ldapom_get_all ids s) = Inl e"
    if "\<exists>i \<in> set ids. \<exists>e. fst (ldapom_get i s) = Inl e"
    using that get_all_fails [OF same_directory_refl] by blast
  show ?thesis using a b c by blast
qed

theorem get_all_one_per_id_in_order_witness:
  "fst (ldapom_get_all [''pp'', ''p''] (people 2)) = Inr [person 1, person 0]
   \<and> (\<exists>e. fst (ldapom_get_all [''pp'', ''nobody''] (people 2)) = Inl e)"
proof -
  have g1: "fst (ldapom_get ''pp'' (people 2)) = Inr (person 1)"
    by (simp add: ldapom_get_fst people_def person_def upt_rec)
  have g0: "fst (ldapom_get ''p'' (people 2)) = Inr (person 0)"
    by (simp add: ldapom_get_fst people_def person_def upt_rec)
  have gn: "fst (ldapom_get ''nobody'' (people 2)) = Inl NoResultFound"
    by (simp add: ldapom_get_fst people_def person_def upt_rec)
  have a: "fst (ldapom_get_all [''pp'', ''p''] (people 2)) = Inr [person 1, person 0]"
    using get_all_one_per_id_in_order [of "[''pp'', ''p'']" "people 2" "[person 1, person 0]"] g1 g0
    by simp
  have b: "\<exists>e. fst (ldapom_get_all [''pp'', ''nobody''] (people 2)) = Inl e"
    using get_all_one_per_id_in_order [of "[''pp'', ''nobody'']" "people 2" "[]"] gn
    by simp
  show ?thesis using a b by simp
qed


section \<open>\<open>LDAPOMService.update\<close>\<close>

lemma delete_empty_result:
  "cls (delete_empty kw x) = cls x \<and> obj_id (delete_empty kw x) = obj_id x
   \<and> (\<forall>k. map_of (attrs (delete_empty kw x)) k =
          (if (k, PStr []) \<in> set kw then None else map_of (attrs x) k))"
proof (induction kw arbitrary: x)
  case Nil
  then show ?case by simp
next
  case (Cons p kw)
  obtain k v where p: "p = (k, v)" by (cases p)
  show ?case
  proof (cases "v = PStr []")
    case True
    have "delete_empty (p # kw) x = delete_empty kw (delattr x k)"
      using p True by simp
    moreover have "map_of (attrs (delattr x k)) = (map_of (attrs x))(k := None)"
      by (simp add: delattr_def delete_conv')
    moreover have "cls (delattr x k) = cls x" "obj_id (delattr x k) = obj_id x"
      by (simp_all add: delattr_def)
    ultimately show ?thesis
      using Cons.IH [of "delattr x k"] p True by auto
  next
    case False
    then have "delete_empty (p # kw) x = delete_empty kw x"
      using p by simp
    then show ?thesis
      using Cons.IH [of x] p False by auto
  qed
qed

lemma assign_all_result:
  "cls (assign_all kw x) = cls x \<and> obj_id (assign_all kw x) = obj_id x
   \<and> map_of (attrs (assign_all kw x)) = map_of (attrs x) ++ map_of (rev kw)"
proof (induction kw arbitrary: x)
  case Nil
  then show ?case by simp
next
  case (Cons p kw)
  obtain k v where p: "p = (k, v)" by (cases p)
  have "map_of (attrs (setattr x k v)) ++ map_of (rev kw) =
        map_of (attrs x) ++ map_of (rev (p # kw))"
    by (simp add: p setattr_def update_conv')
  then show ?case
    using Cons.IH [of "setattr x k v"] by (simp add: p setattr_def)
qed

lemma map_of_rev_distinct:
  assumes "distinct (map fst xs)"
  shows "map_of (rev xs) = map_of xs"
proof -
  have "distinct (map fst (rev xs))" using assms by (simp add: rev_map [symmetric])
  then show ?thesis
    using assms by (simp add: map_of_inject_set)
qed

lemma preprocess_params_set:
  "(k, v) \<in> set (ldapom_preprocess_params kw) \<longleftrightarrow>
     (k, v) \<in> set kw \<and> k \<noteq> ''csrf_token'' \<and> k \<noteq> ''submit'' \<and> v \<noteq> PStr []"
  by (auto simp: ldapom_preprocess_params_def base_preprocess_params_def AList.delete_eq)

lemma preprocess_params_distinct:
  "distinct (map fst kw) \<Longrightarrow> distinct (map fst (ldapom_preprocess_params kw))"
  by (simp add: ldapom_preprocess_params_def base_preprocess_params_def AList.delete_eq
      distinct_map_filter)

lemma map_of_preprocess_params:
  assumes "distinct (map fst kw)"
  shows "map_of (rev (ldapom_preprocess_params kw)) k =
     (if k \<noteq> ''csrf_token'' \<and> k \<noteq> ''submit'' \<and> k \<in> fst ` set kw \<and> (k, PStr []) \<notin> set kw
      then map_of kw k else None)"
proof -
  let ?pp = "ldapom_preprocess_params kw"
  have d: "distinct (map fst ?pp)" using assms by (rule preprocess_params_distinct)
  have rev: "map_of (rev ?pp) = map_of ?pp" using d by (rule map_of_rev_distinct)
  show ?thesis
  proof (cases "map_of ?pp k")
    case None
    then have no: "\<And>v. (k, v) \<notin> set ?pp" using d by (metis map_of_eq_Some_iff option.distinct(1))
    have "map_of kw k = None"
      if k1: "k \<noteq> ''csrf_token''" and k2: "k \<noteq> ''submit''"
        and k3: "k \<in> fst ` set kw" and k4: "(k, PStr []) \<notin> set kw"
    proof -
      obtain v where v: "(k, v) \<in> set kw" using k3 by force
      then have "v \<noteq> PStr []" using k4 by auto
      then have "(k, v) \<in> set ?pp" using v k1 k2 by (simp add: preprocess_params_set)
      then show ?thesis using no by simp
    qed
    then show ?thesis using None rev by simp
  next
    case (Some v)
    then have "(k, v) \<in> set ?pp" using d by simp
    then have kv: "(k, v) \<in> set kw" "k \<noteq> ''csrf_token''" "k \<noteq> ''submit''" "v \<noteq> PStr []"
      by (simp_all add: preprocess_params_set)
    have "map_of kw k = Some v" using kv(1) assms by simp
    moreover have "(k, PStr []) \<notin> set kw"
      using kv(1,4) assms by (metis map_of_is_SomeI option.inject)
    moreover have "k \<in> fst ` set kw" using kv(1) by force
    ultimately show ?thesis using Some rev kv by simp
  qed
qed

lemma find_store_entry:
  "find (\<lambda>e. cls e = cls x \<and> obj_id e = obj_id x) (store_entry x es) = Some x"
  by (induction es) auto

lemma get_after_save:
  "cls x = model s \<Longrightarrow> fst (ldapom_get (obj_id x) (snd (ldapom_save x s))) = Inr x"
  using find_store_entry [of x "entries (ldap s)"]
  by (simp add: ldapom_get_def retrieve_def ldapom_save_def obj_save_def)

text \<open>
  C8. For a record of the service's model and keyword arguments with distinct keys (a
  dictionary): \<open>update\<close> first removes from the record every attribute whose incoming
  value is the empty string (\<open>x1\<close>), then assigns the preprocessed pairs, those whose
  key is neither \<open>csrf_token\<close> nor \<open>submit\<close> and whose value is not the empty string
  (\<open>x'\<close>), stores \<open>x'\<close> in the directory and returns it. In \<open>x'\<close> every attribute with
  an empty-string incoming value is absent, every assigned key has its incoming value and
  every other attribute is as before; a \<open>get\<close> of the record's id afterwards returns
  \<open>x'\<close>.
\<close>

theorem update_removes_then_assigns:
  assumes "cls x = model s"
    and "distinct (map fst kw)"
  shows "\<exists>x1 x'. x1 = delete_empty kw x
           \<and> (\<forall>k. map_of (attrs x1) k =
                  (if (k, PStr []) \<in> set kw then None else map_of (attrs x) k))
           \<and> x' = assign_all (ldapom_preprocess_params kw) x1
           \<and> ldapom_update x kw s = (Inr x', s\<lparr>ldap := obj_save x' (ldap s)\<rparr>)
           \<and> cls x' = cls x \<and> obj_id x' = obj_id x
           \<and> (\<forall>k. map_of (attrs x') k =
                  (if (k, PStr []) \<in> set kw then None
                   else if k \<noteq> ''csrf_token'' \<and> k \<noteq> ''submit'' \<and> k \<in> fst ` set kw
                        then map_of kw k
                   else map_of (attrs x) k))
           \<and> fst (ldapom_get (obj_id x) (snd (ldapom_update x kw s))) = Inr x'"
proof -
  define x1 where "x1 = delete_empty kw x"
  note de = delete_empty_result [of kw x, folded x1_def]
  have x1: "cls x1 = cls x" "obj_id x1 = obj_id x"
    "\<forall>k. map_of (attrs x1) k = (if (k, PStr []) \<in> set kw then None else map_of (attrs x) k)"
    using de by simp_all
  define x' where "x' = assign_all (ldapom_preprocess_params kw) x1"
  note aa = assign_all_result [of "ldapom_preprocess_params kw" x1]
  have cls': "cls x' = cls x" and id': "obj_id x' = obj_id x"
    using aa x1(1,2) by (simp_all add: x'_def)
  have upd: "ldapom_update x kw s = (Inr x', s\<lparr>ldap := obj_save x' (ldap s)\<rparr>)"
    using assms(1)
    by (simp add: ldapom_update_def base_isinstance_def x'_def x1_def ldapom_save_def)
  have at: "map_of (attrs x') k =
        (if (k, PStr []) \<in> set kw then None
         else if k \<noteq> ''csrf_token'' \<and> k \<noteq> ''submit'' \<and> k \<in> fst ` set kw
              then map_of kw k
         else map_of (attrs x) k)" for k
  proof -
    have "map_of (attrs x') k =
          (map_of (attrs x1) ++ map_of (rev (ldapom_preprocess_params kw))) k"
      using aa by (simp add: x'_def)
    also have "\<dots> = (case map_of (rev (ldapom_preprocess_params kw)) k of
                      None \<Rightarrow> map_of (attrs x1) k | Some v \<Rightarrow> Some v)"
      by (simp add: map_add_def)
    finally show ?thesis
      using x1(3) assms(2)
      by (auto simp: map_of_preprocess_params split: option.splits
          dest: weak_map_of_SomeI)
  qed
  have "snd (ldapom_update x kw s) = snd (ldapom_save x' s)"
    by (simp add: upd ldapom_save_def)
  moreover have "cls x' = model s" using cls' assms(1) by simp
  ultimately have get: "fst (ldapom_get (obj_id x) (snd (ldapom_update x kw s))) = Inr x'"
    using get_after_save [of x' s] id' by simp
  show ?thesis
    using x1(3) upd cls' id' at get x'_def x1_def by blast
qed

theorem update_removes_then_assigns_witness:
  "\<exists>x'. ldapom_update
          \<lparr>cls = ''person'', obj_id = ''p'',
             attrs = [(''shell'', PStr ''/bin/bash''), (''phone'', PStr ''42'')]\<rparr>
          [(''shell'', PStr []), (''phone'', PStr ''43''), (''csrf_token'', PStr []),
           (''submit'', PStr ''Save'')]
          (people 1)
        = (Inr x', (people 1)\<lparr>ldap := obj_save x' (ldap (people 1))\<rparr>)
      \<and> map_of (attrs x') ''shell'' = None
      \<and> map_of (attrs x') ''phone'' = Some (PStr ''43'')
      \<and> map_of (attrs x') ''csrf_token'' = None
      \<and> map_of (attrs x') ''submit'' = None
      \<and> fst (ldapom_get ''p''
            (snd (ldapom_update
                   \<lparr>cls = ''person'', obj_id = ''p'',
                      attrs = [(''shell'', PStr ''/bin/bash''), (''phone'', PStr ''42'')]\<rparr>
                   [(''shell'', PStr []), (''phone'', PStr ''43''), (''csrf_token'', PStr []),
                    (''submit'', PStr ''Save'')]
                   (people 1)))) = Inr x'"
proof -
  let ?x = "\<lparr>cls = ''person'', obj_id = ''p'',
             attrs = [(''shell'', PStr ''/bin/bash''), (''phone'', PStr ''42'')]\<rparr>"
  let ?kw = "[(''shell'', PStr []), (''phone'', PStr ''43''), (''csrf_token'', PStr []),
              (''submit'', PStr ''Save'')]"
  have a: "cls ?x = model (people 1)" by (simp add: people_def)
  have b: "distinct (map fst ?kw)" by simp
  from update_removes_then_assigns [OF a b] obtain x1 x' where r:
    "ldapom_update ?x ?kw (people 1) = (Inr x', (people 1)\<lparr>ldap := obj_save x' (ldap (people 1))\<rparr>)"
    "\<forall>k. map_of (attrs x') k =
        (if (k, PStr []) \<in> set ?kw then None
         else if k \<noteq> ''csrf_token'' \<and> k \<noteq> ''submit'' \<and> k \<in> fst ` set ?kw
              then map_of ?kw k
         else map_of (attrs ?x) k)"
    "fst (ldapom_get (obj_id ?x) (snd (ldapom_update ?x ?kw (people 1)))) = Inr x'"
    by blast
  have "map_of (attrs x') ''shell'' = None" using r(2) [rule_format, of "''shell''"] by simp
  moreover have "map_of (attrs x') ''phone'' = Some (PStr ''43'')"
    using r(2) [rule_format, of "''phone''"] by simp
  moreover have "map_of (attrs x') ''csrf_token'' = None"
    using r(2) [rule_format, of "''csrf_token''"] by simp
  moreover have "map_of (attrs x') ''submit'' = None"
    using r(2) [rule_format, of "''submit''"] by simp
  ultimately show ?thesis using r(1,3) by auto
qed

section \<open>\<open>LDAPOMCachedService\<close>\<close>

lemma remember_all_pending:
  "i \<notin> obj_id ` set xs \<Longrightarrow> remember_all xs c i = c i"
  by (induction xs arbitrary: c) auto

lemma remember_all_known:
  "e \<in> set xs \<Longrightarrow>
   \<exists>e'. remember_all xs c (obj_id e) = Some e' \<and> e' \<in> set xs \<and> obj_id e' = obj_id e"
proof (induction xs arbitrary: c e)
  case Nil
  then show ?case by simp
next
  case (Cons a xs)
  show ?case
  proof (cases "obj_id e \<in> obj_id ` set xs")
    case True
    then obtain e2 where e2: "e2 \<in> set xs" "obj_id e2 = obj_id e" by auto
    from Cons.IH [OF e2(1), of "c(obj_id a \<mapsto> a)"] obtain e' where e':
      "remember_all xs (c(obj_id a \<mapsto> a)) (obj_id e2) = Some e'"
      "e' \<in> set xs" "obj_id e' = obj_id e2"
      by blast
    have "remember_all (a # xs) c (obj_id e) = Some e'"
      using e'(1) by (simp only: remember_all.simps e2(2))
    then show ?thesis using e'(2,3) e2(2) by auto
  next
    case False
    then have "e = a" using Cons.prems by auto
    then show ?thesis
      using False by (simp add: remember_all_pending)
  qed
qed

lemma remember_all_distinct:
  "distinct (map obj_id xs) \<Longrightarrow> e \<in> set xs \<Longrightarrow> remember_all xs c (obj_id e) = Some e"
proof -
  assume d: "distinct (map obj_id xs)" and e: "e \<in> set xs"
  from remember_all_known [OF e, of c] obtain e' where
    e': "remember_all xs c (obj_id e) = Some e'" "e' \<in> set xs" "obj_id e' = obj_id e"
    by blast
  have "inj_on obj_id (set xs)" using d by (simp add: distinct_map)
  then have "e' = e" using e e'(2,3) by (auto dest: inj_onD)
  then show ?thesis using e'(1) by simp
qed

lemma cached_all_miss:
  assumes "all_cache s = None"
  shows "fst (cached_all s) = fst (ldapom_all s)"
    and "all_cache (snd (cached_all s)) = Some (fst (ldapom_all s))"
    and "get_cache (snd (cached_all s)) = remember_all (fst (ldapom_all s)) (get_cache s)"
    and "fetch_all_count (snd (cached_all s)) = fetch_all_count s + 1"
  using assms
  by (simp_all add: cached_all_def ldapom_all_def search_def fetch_all_count_def Let_def)

lemma cached_all_hit:
  assumes "all_cache s = Some ys"
  shows "cached_all s = (ys, s\<lparr>get_cache := remember_all ys (get_cache s)\<rparr>)"
  using assms by (simp add: cached_all_def)

lemma all_times_hit:
  assumes "all_cache s = Some ys"
  shows "fst (all_times n s) = replicate n ys
       \<and> all_cache (snd (all_times n s)) = Some ys
       \<and> ldap (snd (all_times n s)) = ldap s
       \<and> (0 < n \<longrightarrow> (\<exists>c. get_cache (snd (all_times n s)) = remember_all ys c))"
  using assms
proof (induction n arbitrary: s)
  case 0
  then show ?case by simp
next
  case (Suc n)
  define s1 where "s1 = s\<lparr>get_cache := remember_all ys (get_cache s)\<rparr>"
  have ca: "cached_all s = (ys, s1)" using Suc.prems by (simp add: cached_all_hit s1_def)
  have s1: "all_cache s1 = Some ys" "ldap s1 = ldap s" "get_cache s1 = remember_all ys (get_cache s)"
    using Suc.prems by (simp_all add: s1_def)
  note IH = Suc.IH [OF s1(1)]
  have "\<exists>c. get_cache (snd (all_times n s1)) = remember_all ys c"
  proof (cases n)
    case 0
    then show ?thesis using s1(3) by auto
  next
    case (Suc m)
    then show ?thesis using IH by simp
  qed
  then show ?case
    using IH s1(2) by (auto simp: ca split: prod.splits)
qed

lemma cached_all_populates:
  "all_cache (snd (cached_all s)) = Some (fst (cached_all s))
   \<and> (\<exists>c. get_cache (snd (cached_all s)) = remember_all (fst (cached_all s)) c)
   \<and> fetch_all_count (snd (cached_all s)) \<le> fetch_all_count s + 1"
proof (cases "all_cache s")
  case None
  then show ?thesis
    using cached_all_miss [OF None] by auto
next
  case (Some ys)
  then show ?thesis
    by (auto simp: cached_all_hit fetch_all_count_def)
qed

lemma cached_get_hit:
  "get_cache s i = Some x \<Longrightarrow> cached_get i s = (Inr x, s)"
  by (simp add: cached_get_def)

text \<open>
  C4. For \<open>n\<close> calls of \<open>all()\<close> in a row on the cached service, from any state of its
  caches: every call returns the sequence the first one returns; the full listing is
  fetched from the directory at most once; and after the calls (\<open>n > 0\<close>), \<open>get\<close> of the
  id of any record of the listing returns a record of the listing with that id (the
  record itself when the ids of the listing are distinct) and leaves the service, and
  with it the record of calls to the directory, as it is.
\<close>

theorem cached_all_coherent:
  "fst (all_times n s) = replicate n (fst (cached_all s))
   \<and> fetch_all_count (snd (all_times n s)) \<le> fetch_all_count s + 1
   \<and> (0 < n \<longrightarrow>
        (\<forall>e \<in> set (fst (cached_all s)).
           \<exists>e'. cached_get (obj_id e) (snd (all_times n s)) = (Inr e', snd (all_times n s))
              \<and> e' \<in> set (fst (cached_all s)) \<and> obj_id e' = obj_id e
              \<and> (distinct (map obj_id (fst (cached_all s))) \<longrightarrow> e' = e)))"
proof (cases n)
  case 0
  then show ?thesis by simp
next
  case (Suc m)
  define xs where "xs = fst (cached_all s)"
  define s1 where "s1 = snd (cached_all s)"
  define s2 where "s2 = snd (all_times m s1)"
  have ca: "cached_all s = (xs, s1)" by (simp add: xs_def s1_def)
  note pop = cached_all_populates [of s, folded xs_def s1_def]
  note hit = all_times_hit [of s1 xs m, folded s2_def]
  have s1: "all_cache s1 = Some xs" using pop by simp
  have run: "all_times n s = (xs # replicate m xs, s2)"
    using hit [OF s1] by (simp add: Suc ca s2_def case_prod_beta)
  have cnt: "fetch_all_count s2 \<le> fetch_all_count s + 1"
    using hit [OF s1] pop by (simp add: fetch_all_count_def)
  have "\<exists>c. get_cache s2 = remember_all xs c"
  proof (cases m)
    case 0
    then show ?thesis using pop by (simp add: s2_def)
  next
    case (Suc k)
    then show ?thesis using hit [OF s1] by simp
  qed
  then obtain c where c: "get_cache s2 = remember_all xs c" by blast
  have get: "\<exists>e'. cached_get (obj_id e) s2 = (Inr e', s2)
              \<and> e' \<in> set xs \<and> obj_id e' = obj_id e
              \<and> (distinct (map obj_id xs) \<longrightarrow> e' = e)" if e: "e \<in> set xs" for e
  proof -
    from remember_all_known [OF e, of c] obtain e' where e':
      "remember_all xs c (obj_id e) = Some e'" "e' \<in> set xs" "obj_id e' = obj_id e"
      by blast
    have "cached_get (obj_id e) s2 = (Inr e', s2)"
      using e'(1) c by (simp add: cached_get_hit)
    moreover have "e' = e" if "distinct (map obj_id xs)"
      using remember_all_distinct [OF that e, of c] e'(1) by simp
    ultimately show ?thesis using e'(2,3) by blast
  qed
  show ?thesis
    unfolding xs_def [symmetric] run using cnt get Suc by simp
qed

theorem cached_all_coherent_witness:
  "fst (all_times 3 (cached_init ''person'' (ldap (people 2))))
     = [[person 0, person 1], [person 0, person 1], [person 0, person 1]]
   \<and> fetch_all_count (snd (all_times 3 (cached_init ''person'' (ldap (people 2))))) \<le> 1
   \<and> cached_get ''pp'' (snd (all_times 3 (cached_init ''person'' (ldap (people 2)))))
       = (Inr (person 1), snd (all_times 3 (cached_init ''person'' (ldap (people 2)))))"
proof -
  let ?s = "cached_init ''person'' (ldap (people 2))"
  have xs: "fst (cached_all ?s) = [person 0, person 1]"
    by (simp add: cached_all_def cached_init_def ldapom_all_def search_def people_def
        person_def matches_def upt_rec Let_def)
  have cnt: "fetch_all_count ?s = 0"
    by (simp add: fetch_all_count_def cached_init_def people_def)
  have d: "distinct (map obj_id [person 0, person 1])"
    by (simp add: person_def)
  have id: "obj_id (person 1) = ''pp''"
    by (simp add: person_def)
  note t = cached_all_coherent [of 3 ?s, unfolded xs cnt]
  from t have "\<exists>e'. cached_get (obj_id (person 1)) (snd (all_times 3 ?s))
                  = (Inr e', snd (all_times 3 ?s)) \<and> e' = person 1"
    using d by simp
  then have "cached_get ''pp'' (snd (all_times 3 ?s)) = (Inr (person 1), snd (all_times 3 ?s))"
    using id by simp
  moreover have "fst (all_times 3 ?s) = [[person 0, person 1], [person 0, person 1], [person 0, person 1]]"
    using t by (simp add: numeral_3_eq_3)
  ultimately show ?thesis using t by simp
qed

section \<open>The key of the find cache\<close>

text \<open>
  C3, as amended. Whatever the built-in hash is, a second \<open>find\<close> with the same pairs in
  the same order returns what the first returned and leaves the service, and with it the
  record of calls to the directory, as the first call left it.
\<close>

theorem cached_find_same_order_hits:
  "cached_find py_hash kw (snd (cached_find py_hash kw s))
     = (fst (cached_find py_hash kw s), snd (cached_find py_hash kw s))"
proof (cases "find_cache s (py_hash kw)")
  case None
  then show ?thesis
    by (simp add: cached_find_def ldapom_find_def search_def Let_def)
next
  case (Some xs)
  then show ?thesis
    by (simp add: cached_find_def)
qed

lemma cached_find_other_key_misses:
  assumes "py_hash kw2 \<noteq> py_hash kw1" "find_cache s (py_hash kw2) = None"
  shows "calls (ldap (snd (cached_find py_hash kw2 (snd (cached_find py_hash kw1 s)))))
         = calls (ldap (snd (cached_find py_hash kw1 s))) @ [Search kw2]"
  using assms
  by (cases "find_cache s (py_hash kw1)")
     (simp_all add: cached_find_def ldapom_find_def search_def Let_def)

text \<open>
  C3, as stated, fails: the key is the hash of the pairs in the order of the call, so
  \<open>find(a=1, b=2)\<close> followed by \<open>find(b=2, a=1)\<close> looks up two keys and goes to the
  directory twice.
\<close>

theorem cached_find_order_counterexample:
  "seq_hash [(''a'', PInt 1), (''b'', PInt 2)] \<noteq> seq_hash [(''b'', PInt 2), (''a'', PInt 1)]
   \<and> calls (ldap (snd (cached_find seq_hash [(''b'', PInt 2), (''a'', PInt 1)]
                    (snd (cached_find seq_hash [(''a'', PInt 1), (''b'', PInt 2)]
                           (cached_init ''person'' \<lparr>entries = [], calls = []\<rparr>))))))
       = [Search [(''a'', PInt 1), (''b'', PInt 2)], Search [(''b'', PInt 2), (''a'', PInt 1)]]"
proof -
  have h: "seq_hash [(''b'', PInt 2), (''a'', PInt 1)] \<noteq> seq_hash [(''a'', PInt 1), (''b'', PInt 2)]"
    by (simp add: seq_hash_def)
  have e: "find_cache (cached_init ''person'' \<lparr>entries = [], calls = []\<rparr>) k = None" for k
    by (simp add: cached_init_def)
  have first: "calls (ldap (snd (cached_find seq_hash [(''a'', PInt 1), (''b'', PInt 2)]
                 (cached_init ''person'' \<lparr>entries = [], calls = []\<rparr>))))
               = [Search [(''a'', PInt 1), (''b'', PInt 2)]]"
    by (simp add: cached_find_def e ldapom_find_def search_def cached_init_def Let_def)
  show ?thesis
    using cached_find_other_key_misses [OF h e] h by (simp add: first)
qed

end
